theory Spec2Isabelle
  imports Main "HOL-Library.Sublist" "HOL-Library.Multiset"
begin

section \<open>Python values used by the program\<close>

text \<open>
  The program is \<^verbatim>\<open>src/mihalcea.py\<close>. A Python \<^verbatim>\<open>str\<close> is modelled as a
  \<^typ>\<open>string\<close>, one \<^typ>\<open>char\<close> for one character of the text (so the model covers texts
  whose code points are below 256). The value that \<^verbatim>\<open>json.load\<close> returns is a \<open>json\<close>:
  \<open>JNull\<close> is Python's \<^verbatim>\<open>None\<close>, a \<open>JObj\<close> holds the items of a \<^verbatim>\<open>dict\<close> in insertion
  order (its keys are strings), a \<open>JArr\<close> is a \<^verbatim>\<open>list\<close>. Numbers are kept as integers: the
  program only ever tests a number for truth (zero is false) and fails on everything else
  it could do with one.
\<close>

datatype json =
    JNull
  | JBool bool
  | JNum int
  | JStr string
  | JArr "json list"
  | JObj "(string \<times> json) list"

text \<open>
  The exceptions that the modelled code can raise. An \<^verbatim>\<open>OSError\<close> of \<^verbatim>\<open>open\<close> or
  \<^verbatim>\<open>os.listdir\<close> carries the path that it could not open (its \<^verbatim>\<open>filename\<close>, which its message
  ends with). The \<^verbatim>\<open>UnboundLocalError\<close> of the program is raised inside an \<^verbatim>\<open>except\<close> block,
  and carries the exception that was being handled (its \<^verbatim>\<open>__context__\<close>). \<open>SystemExit\<close> is
  what \<^verbatim>\<open>sys.exit()\<close> raises.
\<close>

datatype py_exc =
    OSError string
  | UnboundLocalError py_exc
  | SystemExit
  | JSONDecodeError
  | TypeError
  | IndexError
  | KeyError
  | AttributeError

text \<open>\<^verbatim>\<open>v.get(k)\<close>: only a \<^verbatim>\<open>dict\<close> has the method; a missing key gives \<^verbatim>\<open>None\<close>.\<close>

fun dict_get :: "json \<Rightarrow> string \<Rightarrow> py_exc + json" where
  "dict_get (JObj kvs) k = Inr (case map_of kvs k of None \<Rightarrow> JNull | Some v \<Rightarrow> v)"
| "dict_get _ k = Inl AttributeError"

text \<open>
  \<^verbatim>\<open>v[0]\<close>: the first element of a list or the first character of a string, \<^verbatim>\<open>IndexError\<close>
  when there is none; a \<^verbatim>\<open>dict\<close> loaded from JSON has string keys only, so the key \<^verbatim>\<open>0\<close>
  is missing; \<^verbatim>\<open>None\<close>, booleans and numbers are not subscriptable.
\<close>

fun subscript0 :: "json \<Rightarrow> py_exc + json" where
  "subscript0 (JArr []) = Inl IndexError"
| "subscript0 (JArr (x # xs)) = Inr x"
| "subscript0 (JStr []) = Inl IndexError"
| "subscript0 (JStr (c # cs)) = Inr (JStr [c])"
| "subscript0 (JObj kvs) = Inl KeyError"
| "subscript0 _ = Inl TypeError"

text \<open>The truth value of \<^verbatim>\<open>if v:\<close>.\<close>

fun truthy :: "json \<Rightarrow> bool" where
  "truthy JNull = False"
| "truthy (JBool b) = b"
| "truthy (JNum n) = (n \<noteq> 0)"
| "truthy (JStr s) = (s \<noteq> [])"
| "truthy (JArr xs) = (xs \<noteq> [])"
| "truthy (JObj kvs) = (kvs \<noteq> [])"

text \<open>
  The elements that \<^verbatim>\<open>for x in v\<close> visits: the elements of a list, the characters of a
  string, the keys of a \<^verbatim>\<open>dict\<close>; anything else is not iterable.
\<close>

fun iterate :: "json \<Rightarrow> py_exc + json list" where
  "iterate (JArr xs) = Inr xs"
| "iterate (JStr s) = Inr (map (\<lambda>c. JStr [c]) s)"
| "iterate (JObj kvs) = Inr (map (\<lambda>kv. JStr (fst kv)) kvs)"
| "iterate _ = Inl TypeError"

section \<open>Regular expressions\<close>

text \<open>
  The fragment of Python's \<^verbatim>\<open>re\<close> syntax that the program's pattern is written in.
  \<open>Lazy m c\<close> is \<^verbatim>\<open>C{m,}?\<close> for a character class \<^verbatim>\<open>C\<close>.
\<close>

datatype cls =
    Between char char
  | NoneOf "char list"

datatype regex =
    Chars string
  | One cls
  | Lazy nat cls
  | LookBehind string
  | LookAhead regex
  | NotAhead regex
  | Cat regex regex
  | Alt regex regex

fun in_cls :: "cls \<Rightarrow> char \<Rightarrow> bool" where
  "in_cls (Between a b) c = ((of_char a :: nat) \<le> of_char c \<and> (of_char c :: nat) \<le> of_char b)"
| "in_cls (NoneOf xs) c = (c \<notin> set xs)"

text \<open>
  \<open>ends r b s\<close> lists the lengths of the matches of \<open>r\<close> that start where the text \<open>s\<close>
  starts, \<open>b\<close> being the text before that position, reversed. The list is in the order in
  which the backtracking matcher tries them: the left branch of an alternative first, the
  shortest repetition of a lazy quantifier first. The matcher returns the first one.
\<close>

fun ends :: "regex \<Rightarrow> string \<Rightarrow> string \<Rightarrow> nat list" where
  "ends (Chars l) b s = (if prefix l s then [length l] else [])"
| "ends (One c) b s = (case s of [] \<Rightarrow> [] | x # xs \<Rightarrow> if in_cls c x then [1] else [])"
| "ends (Lazy m c) b s = [m ..< Suc (length (takeWhile (in_cls c) s))]"
| "ends (LookBehind l) b s = (if prefix (rev l) b then [0] else [])"
| "ends (LookAhead r) b s = (if ends r b s = [] then [] else [0])"
| "ends (NotAhead r) b s = (if ends r b s = [] then [0] else [])"
| "ends (Cat r1 r2) b s =
     concat (map (\<lambda>n. map (\<lambda>k. n + k) (ends r2 (rev (take n s) @ b) (drop n s))) (ends r1 b s))"
| "ends (Alt r1 r2) b s = ends r1 b s @ ends r2 b s"

text \<open>
  \<^verbatim>\<open>re.findall(pattern, text)\<close> for a pattern without groups: the matched substrings, found
  from left to right, each search starting where the previous match ended. A position where
  the pattern does not match, or matches the empty string, is stepped over (the program's
  pattern never matches fewer than three characters).
\<close>

function findall_from :: "regex \<Rightarrow> string \<Rightarrow> string \<Rightarrow> string list" where
  "findall_from r b s =
     (if s = [] then []
      else (case ends r b s of
              [] \<Rightarrow> findall_from r (hd s # b) (tl s)
            | n # ns \<Rightarrow>
                if n = 0 then findall_from r (hd s # b) (tl s)
                else take n s # findall_from r (rev (take n s) @ b) (drop n s)))"
  by pat_completeness auto
termination
  by (relation "measure (\<lambda>(r, b, s). length s)") auto

declare findall_from.simps [simp del]

definition findall :: "regex \<Rightarrow> string \<Rightarrow> string list" where
  "findall r s = findall_from r [] s"

text \<open>
  \<^verbatim>\<open>s.split(sep)\<close> for a non-empty separator: the pieces between the occurrences of \<open>sep\<close>,
  found from left to right without overlap. \<open>acc\<close> is the piece being read, reversed.
\<close>

function str_split_from :: "string \<Rightarrow> string \<Rightarrow> string \<Rightarrow> string list" where
  "str_split_from sep acc [] = [rev acc]"
| "str_split_from sep acc (c # cs) =
     (if sep \<noteq> [] \<and> prefix sep (c # cs)
      then rev acc # str_split_from sep [] (drop (length sep) (c # cs))
      else str_split_from sep (c # acc) cs)"
  by pat_completeness auto
termination
  by (relation "measure (\<lambda>(sep, acc, s). length s)") (auto simp: neq_Nil_conv)

definition str_split :: "string \<Rightarrow> string \<Rightarrow> string list" where
  "str_split sep s = str_split_from sep [] s"

section \<open>parse_authors_from_comments\<close>

text \<open>
  Line 66: \<^verbatim>\<open>[A-Z](?!=[A-Z])[^0-9+\(\)\[\]\{\}\\\/_:;""]{2,}?\<close>. The characters that the
  negated class excludes are the digits and \<^verbatim>\<open>+ ( ) [ ] { } \ / _ : ; "\<close>.
\<close>

definition excluded_chars :: "char list" where
  "excluded_chars = ''0123456789+()[]{}'' @ [CHR 0x5C] @ ''/_:;'' @ [CHR 0x22]"

definition common_pattern :: regex where
  "common_pattern =
     Cat (One (Between CHR ''A'' CHR ''Z''))
       (Cat (NotAhead (Cat (Chars ''='') (One (Between CHR ''A'' CHR ''Z''))))
            (Lazy 2 (NoneOf excluded_chars)))"

text \<open>
  Line 67, the four pairs of a look-behind and a look-ahead:
  \<^verbatim>\<open>('(?<=_)', '(?=_)'), ('(?<=\[)', '(?=\])'), ('(?<=- )', '(?= \(|, )'), ('(?<=\()', '(?=,)')\<close>.
\<close>

definition pattern_list :: "(regex \<times> regex) list" where
  "pattern_list =
     [(LookBehind ''_'', LookAhead (Chars ''_'')),
      (LookBehind ''['', LookAhead (Chars '']'')),
      (LookBehind ''- '', LookAhead (Alt (Chars '' ('') (Chars '', ''))),
      (LookBehind ''('', LookAhead (Chars '',''))]"

text \<open>Line 68: the alternatives \<^verbatim>\<open>start + common_pattern + end\<close>, joined with \<^verbatim>\<open>|\<close>.\<close>

definition pattern :: regex where
  "pattern =
     (let alts = map (\<lambda>(start, end). Cat start (Cat common_pattern end)) pattern_list
      in foldr Alt (butlast alts) (last alts))"

text \<open>
  \<^verbatim>\<open>authors.update(names)\<close> on a \<^verbatim>\<open>set\<close>. The set is kept as a list without repetition;
  the order in which Python iterates over a set is not specified, and no theorem below
  depends on the order chosen here.
\<close>

definition set_update :: "string list \<Rightarrow> string list \<Rightarrow> string list" where
  "set_update authors names = fold List.insert names authors"

text \<open>Line 75: the names of one comment.\<close>

definition comment_names :: "string \<Rightarrow> string list" where
  "comment_names comment = concat (map (str_split '', '') (findall pattern comment))"

text \<open>
  Lines 74-75, the loop over the comments: \<^verbatim>\<open>re.findall\<close> raises \<^verbatim>\<open>TypeError\<close> on a
  comment that is not a string.
\<close>

fun collect_authors :: "json list \<Rightarrow> string list \<Rightarrow> py_exc + string list" where
  "collect_authors [] authors = Inr authors"
| "collect_authors (JStr comment # cs) authors =
     collect_authors cs (set_update authors (comment_names comment))"
| "collect_authors (c # cs) authors = Inl TypeError"

text \<open>
  Lines 71-77. The result is \<open>Some\<close> of the set of authors, or \<open>None\<close> for the bare
  \<^verbatim>\<open>return\<close>.
\<close>

definition parse_authors_from_comments :: "json \<Rightarrow> py_exc + string list option" where
  "parse_authors_from_comments raw_data =
     (case dict_get raw_data ''results'' of
        Inl e \<Rightarrow> Inl e
      | Inr results \<Rightarrow>
          (case subscript0 results of
             Inl e \<Rightarrow> Inl e
           | Inr entry \<Rightarrow>
               (case dict_get entry ''comment'' of
                  Inl e \<Rightarrow> Inl e
                | Inr comment_list \<Rightarrow>
                    if truthy comment_list
                    then (case iterate comment_list of
                            Inl e \<Rightarrow> Inl e
                          | Inr comments \<Rightarrow>
                              (case collect_authors comments [] of
                                 Inl e \<Rightarrow> Inl e
                               | Inr authors \<Rightarrow> Inr (Some authors)))
                    else Inr None)))"

section \<open>load_json\<close>

text \<open>
  The files that the program reads and writes. \<open>fs_listdir\<close> is \<^verbatim>\<open>os.listdir\<close> (the names
  in a directory, in the order the system gives them; \<open>None\<close> when the directory cannot be
  listed), \<open>fs_files\<close> gives the content of each file that can be opened for reading, and
  \<open>fs_writable\<close> says which paths can be opened for writing. A file is either a JSON
  document or text that \<^verbatim>\<open>json.load\<close> rejects; \<^verbatim>\<open>json.dump\<close> followed by \<^verbatim>\<open>json.load\<close>
  gives the document back.
\<close>

datatype file_content = Malformed | Document json

record filesystem =
  fs_listdir :: "string \<Rightarrow> string list option"
  fs_files :: "string \<Rightarrow> file_content option"
  fs_writable :: "string \<Rightarrow> bool"

text \<open>
  What \<^verbatim>\<open>print\<close> writes, one value per call: a line of text, the \<^verbatim>\<open>json.dumps\<close> of a
  document, the line that reports \<^verbatim>\<open>type(raw_data)\<close>, the line that reports
  \<^verbatim>\<open>raw_data.keys()\<close>.
\<close>

datatype printed = Line string | Dump json | TypeOf json | KeysOf "string list"

text \<open>Lines 37-43, the printing under \<^verbatim>\<open>print_content\<close>; \<^verbatim>\<open>keys()\<close> needs a \<^verbatim>\<open>dict\<close>.\<close>

definition print_contents :: "string \<Rightarrow> json \<Rightarrow> printed list \<times> (py_exc + json)" where
  "print_contents file_path raw_data =
     (let out = [Line (''File '' @ last (str_split ''/'' file_path) @ '' contents:''),
                     Line [], Dump raw_data, Line [], TypeOf raw_data]
      in case raw_data of
           JObj kvs \<Rightarrow> (out @ [KeysOf (map fst kvs)], Inr raw_data)
         | _ \<Rightarrow> (out, Inl AttributeError))"

text \<open>
  Lines 30-44. When \<^verbatim>\<open>open\<close> raises \<^verbatim>\<open>OSError\<close>, the handler evaluates
  \<^verbatim>\<open>'Could not open file:' + file + ', exiting program.'\<close>; \<open>file\<close> is a local variable of the
  function that has not been assigned (the assignment of line 31 is what failed), so the
  expression raises \<^verbatim>\<open>UnboundLocalError\<close> before \<^verbatim>\<open>print\<close> is called, and \<^verbatim>\<open>sys.exit()\<close>
  on line 34 is not reached. The result is what was printed on the standard output and the
  value returned or the exception raised.
\<close>

definition load_json :: "filesystem \<Rightarrow> string \<Rightarrow> bool \<Rightarrow> printed list \<times> (py_exc + json)" where
  "load_json fs file_path print_content =
     (case fs_files fs file_path of
        None \<Rightarrow> ([], Inl (UnboundLocalError (OSError file_path)))
      | Some Malformed \<Rightarrow> ([], Inl JSONDecodeError)
      | Some (Document raw_data) \<Rightarrow>
          if print_content then print_contents file_path raw_data
          else ([], Inr raw_data))"

text \<open>
  No caller of \<open>load_json\<close> has a \<^verbatim>\<open>try\<close> around it (lines 120 and 179, and \<open>main\<close> is called
  on line 224 without one), so an exception that it raises ends the process. The
  interpreter then writes a traceback on the standard error stream and exits with status
  1; only \<open>SystemExit\<close> without an argument ends the process silently with status 0. The
  traceback of an exception that was raised while another one was being handled reports
  that one first. \<open>traceback\<close> lists the exceptions reported, in that order, each with what
  its message carries.
\<close>

fun traceback :: "py_exc \<Rightarrow> py_exc list" where
  "traceback SystemExit = []"
| "traceback (UnboundLocalError handled) = traceback handled @ [UnboundLocalError handled]"
| "traceback e = [e]"

fun exit_status :: "py_exc \<Rightarrow> nat" where
  "exit_status SystemExit = 0"
| "exit_status e = 1"

section \<open>The graph\<close>

text \<open>
  A \<^verbatim>\<open>networkx.Graph\<close> whose nodes are strings and that carries no attributes: its
  adjacency dictionary, as the list of the nodes in insertion order, each with its
  neighbours in insertion order (the node dictionary has the same keys in the same order).
\<close>

type_synonym graph = "(string \<times> string list) list"

definition nodes :: "graph \<Rightarrow> string list" where
  "nodes G = map fst G"

text \<open>\<^verbatim>\<open>G.add_node(n)\<close>: a node that is there already is left where it is.\<close>

definition add_node :: "string \<Rightarrow> graph \<Rightarrow> graph" where
  "add_node n G = (if n \<in> set (nodes G) then G else G @ [(n, [])])"

text \<open>\<^verbatim>\<open>self._adj[u][v] = datadict\<close>: \<open>v\<close> becomes a neighbour of \<open>u\<close>, once.\<close>

definition add_nbr :: "string \<Rightarrow> string \<Rightarrow> graph \<Rightarrow> graph" where
  "add_nbr u v G =
     map (\<lambda>(k, ns). if k = u then (k, if v \<in> set ns then ns else ns @ [v]) else (k, ns)) G"

text \<open>\<^verbatim>\<open>G.add_edge(u, v)\<close>: both ends become nodes, each a neighbour of the other.\<close>

definition add_edge :: "string \<Rightarrow> string \<Rightarrow> graph \<Rightarrow> graph" where
  "add_edge u v G = add_nbr v u (add_nbr u v (add_node v (add_node u G)))"

definition add_edges_from :: "(string \<times> string) list \<Rightarrow> graph \<Rightarrow> graph" where
  "add_edges_from ebunch G = fold (\<lambda>(u, v). add_edge u v) ebunch G"

text \<open>
  \<^verbatim>\<open>G.edges()\<close>: for each node in order, its neighbours that are not among the nodes
  visited before it.
\<close>

fun edges_from :: "string list \<Rightarrow> graph \<Rightarrow> (string \<times> string) list" where
  "edges_from seen [] = []"
| "edges_from seen ((n, nbrs) # G) =
     map (Pair n) (filter (\<lambda>nbr. nbr \<notin> set seen) nbrs) @ edges_from (n # seen) G"

definition edges :: "graph \<Rightarrow> (string \<times> string) list" where
  "edges G = edges_from [] G"

text \<open>
  The node set and the edge set of a graph: an edge is the set of its two ends. \<open>adj_pairs\<close>
  lists every pair \<open>(u, v)\<close> with \<open>v\<close> in the adjacency of \<open>u\<close>.
\<close>

definition node_set :: "graph \<Rightarrow> string set" where
  "node_set G = set (nodes G)"

definition adj_pairs :: "graph \<Rightarrow> (string \<times> string) list" where
  "adj_pairs G = concat (map (\<lambda>(u, ns). map (Pair u) ns) G)"

definition edge_set :: "graph \<Rightarrow> string set set" where
  "edge_set G = (\<lambda>(u, v). {u, v}) ` set (adj_pairs G)"

text \<open>
  What \<^verbatim>\<open>networkx\<close> keeps true of every undirected graph: each node has one entry, and
  \<open>v\<close> is a neighbour of \<open>u\<close> exactly when \<open>u\<close> is a neighbour of \<open>v\<close>.
\<close>

definition graph_inv :: "graph \<Rightarrow> bool" where
  "graph_inv G =
     (distinct (nodes G) \<and> (\<forall>(u, v) \<in> set (adj_pairs G). (v, u) \<in> set (adj_pairs G)))"

section \<open>build_graph_from_directory\<close>

text \<open>\<^verbatim>\<open>itertools.combinations(xs, 2)\<close>.\<close>

fun combinations2 :: "'a list \<Rightarrow> ('a \<times> 'a) list" where
  "combinations2 [] = []"
| "combinations2 (x # xs) = map (Pair x) xs @ combinations2 xs"

text \<open>
  Lines 123-125: \<^verbatim>\<open>None\<close> and the empty set are false; the call of \<open>add_nodes_from\<close> is
  commented out in the source.
\<close>

definition add_authors :: "string list option \<Rightarrow> graph \<Rightarrow> graph" where
  "add_authors authors G =
     (case authors of
        None \<Rightarrow> G
      | Some xs \<Rightarrow> if xs \<noteq> [] then add_edges_from (combinations2 xs) G else G)"

text \<open>Lines 120 and 122: the authors of the record in one file.\<close>

definition file_authors :: "filesystem \<Rightarrow> string \<Rightarrow> py_exc + string list option" where
  "file_authors fs file_path =
     (case snd (load_json fs file_path False) of
        Inl e \<Rightarrow> Inl e
      | Inr raw_data \<Rightarrow> parse_authors_from_comments raw_data)"

text \<open>Lines 117-126, the loop over the files; the first exception ends it.\<close>

fun parse_files :: "filesystem \<Rightarrow> string \<Rightarrow> string list \<Rightarrow> graph \<Rightarrow> py_exc + graph" where
  "parse_files fs dir_path [] G = Inr G"
| "parse_files fs dir_path (f # file_list) G =
     (case file_authors fs (dir_path @ f) of
        Inl e \<Rightarrow> Inl e
      | Inr authors \<Rightarrow> parse_files fs dir_path file_list (add_authors authors G))"

text \<open>Lines 108-109.\<close>

definition with_slash :: "string \<Rightarrow> string" where
  "with_slash dir_path = (if last dir_path \<noteq> CHR ''/'' then dir_path @ ''/'' else dir_path)"

text \<open>Line 110, on the names that \<^verbatim>\<open>os.listdir\<close> gave.\<close>

definition json_files :: "string list \<Rightarrow> string list" where
  "json_files names = filter (\<lambda>json_file. suffix ''.json'' json_file) names"

text \<open>
  \<^verbatim>\<open>nx.readwrite.json_graph.node_link_data(G)\<close> for such a graph, with the keys that
  \<^verbatim>\<open>networkx\<close> 2 writes: the nodes as \<^verbatim>\<open>{"id": n}\<close> in the order of the graph, the edges of
  \<^verbatim>\<open>G.edges()\<close> as \<^verbatim>\<open>{"source": u, "target": v}\<close>.
\<close>

definition node_link_doc :: "string list \<Rightarrow> (string \<times> string) list \<Rightarrow> json" where
  "node_link_doc ns es =
     JObj [(''directed'', JBool False),
           (''multigraph'', JBool False),
           (''graph'', JObj []),
           (''nodes'', JArr (map (\<lambda>n. JObj [(''id'', JStr n)]) ns)),
           (''links'', JArr (map (\<lambda>(u, v). JObj [(''source'', JStr u), (''target'', JStr v)]) es))]"

definition node_link_data :: "graph \<Rightarrow> json" where
  "node_link_data G = node_link_doc (nodes G) (edges G)"

text \<open>Line 130, the path of the saved graph.\<close>

definition save_path :: "string \<Rightarrow> string \<Rightarrow> string" where
  "save_path dir_path filename =
     (case str_split ''/'' dir_path of
        [] \<Rightarrow> []
      | p # ps \<Rightarrow> p) @ ''/'' @ filename @ ''.json''"

text \<open>
  Lines 107-133. \<^verbatim>\<open>dir_path[-1]\<close> raises \<^verbatim>\<open>IndexError\<close> on the empty string. The progress
  bar is left out. The result is the file system after the call and the graph.
\<close>

definition build_graph_from_directory ::
  "filesystem \<Rightarrow> string \<Rightarrow> bool \<Rightarrow> string \<Rightarrow> py_exc + (filesystem \<times> graph)" where
  "build_graph_from_directory fs dir_path save filename =
     (if dir_path = [] then Inl IndexError
      else (case fs_listdir fs (with_slash dir_path) of
              None \<Rightarrow> Inl (OSError (with_slash dir_path))
            | Some names \<Rightarrow>
                (case parse_files fs (with_slash dir_path) (json_files names) [] of
                   Inl e \<Rightarrow> Inl e
                 | Inr G \<Rightarrow>
                     if save
                     then (if fs_writable fs (save_path (with_slash dir_path) filename)
                           then Inr (fs\<lparr>fs_files := (fs_files fs)
                                      (save_path (with_slash dir_path) filename
                                         \<mapsto> Document (node_link_data G))\<rparr>, G)
                           else Inl (OSError (save_path (with_slash dir_path) filename)))
                     else Inr (fs, G))))"

section \<open>load_json_graph\<close>

text \<open>
  \<^verbatim>\<open>nx.readwrite.json_graph.node_link_graph(data)\<close> on the documents that describe an
  undirected simple graph without attributes whose nodes are strings: every node is added
  in the order of the document, then every link as an edge. The result is \<open>None\<close> for any
  other document (on which the library raises, or builds a graph of another kind).
\<close>

fun node_of :: "json \<Rightarrow> string option" where
  "node_of (JObj [(k, JStr n)]) = (if k = ''id'' then Some n else None)"
| "node_of _ = None"

fun link_of :: "json \<Rightarrow> (string \<times> string) option" where
  "link_of (JObj kvs) =
     (case (map_of kvs ''source'', map_of kvs ''target'') of
        (Some (JStr u), Some (JStr v)) \<Rightarrow> if length kvs = 2 then Some (u, v) else None
      | _ \<Rightarrow> None)"
| "link_of _ = None"

definition node_link_graph :: "json \<Rightarrow> graph option" where
  "node_link_graph data =
     (case data of
        JObj kvs \<Rightarrow>
          if map_of kvs ''multigraph'' = Some (JBool False)
             \<and> map_of kvs ''directed'' = Some (JBool False)
             \<and> map_of kvs ''graph'' = Some (JObj [])
          then (case (map_of kvs ''nodes'', map_of kvs ''links'') of
                  (Some (JArr ns), Some (JArr ls)) \<Rightarrow>
                    (case (those (map node_of ns), those (map link_of ls)) of
                       (Some ids, Some es) \<Rightarrow> Some (add_edges_from es (fold add_node ids []))
                     | _ \<Rightarrow> None)
                | _ \<Rightarrow> None)
          else None
      | _ \<Rightarrow> None)"

text \<open>Lines 151-152; \<^verbatim>\<open>open\<close> is not guarded here.\<close>

definition load_json_graph :: "filesystem \<Rightarrow> string \<Rightarrow> py_exc + graph option" where
  "load_json_graph fs file_path =
     (case fs_files fs file_path of
        None \<Rightarrow> Inl (OSError file_path)
      | Some Malformed \<Rightarrow> Inl JSONDecodeError
      | Some (Document data) \<Rightarrow> Inr (node_link_graph data))"

section \<open>Reading a match\<close>

text \<open>
  The capital letters of line 66, and the four pairs of line 67 read as a condition on the
  text before a match and the text after it (\<open>in_context_pattern_list\<close> below shows that
  this is what the look-behind and the look-ahead of each pair test).
\<close>

definition upper :: "char \<Rightarrow> bool" where
  "upper c = in_cls (Between CHR ''A'' CHR ''Z'') c"

definition in_context :: "string \<Rightarrow> string \<Rightarrow> bool" where
  "in_context pre post =
     (suffix ''_'' pre \<and> prefix ''_'' post
      \<or> suffix ''['' pre \<and> prefix '']'' post
      \<or> suffix ''- '' pre \<and> (prefix '' ('' post \<or> prefix '', '' post)
      \<or> suffix ''('' pre \<and> prefix '','' post)"

text \<open>
  \<open>scan_at r b s k\<close>: the search of \<open>findall_from r b s\<close> comes to stand at offset \<open>k\<close> of
  \<open>s\<close>, that is, no match that it finds before that offset runs over it. It follows the
  steps of \<open>findall_from\<close>.
\<close>

function scan_at :: "regex \<Rightarrow> string \<Rightarrow> string \<Rightarrow> nat \<Rightarrow> bool" where
  "scan_at r b s k =
     (if k = 0 then True
      else if s = [] then False
      else (case ends r b s of
              [] \<Rightarrow> scan_at r (hd s # b) (tl s) (k - 1)
            | n # ns \<Rightarrow>
                if n = 0 then scan_at r (hd s # b) (tl s) (k - 1)
                else if n \<le> k then scan_at r (rev (take n s) @ b) (drop n s) (k - n)
                else False))"
  by pat_completeness auto
termination
  by (relation "measure (\<lambda>(r, b, s, k). k)") auto

declare scan_at.simps [simp del]

text \<open>\<^verbatim>\<open>sep.join(pieces)\<close>, to say what the pieces of a split are.\<close>

fun str_join :: "string \<Rightarrow> string list \<Rightarrow> string" where
  "str_join sep [] = []"
| "str_join sep [x] = x"
| "str_join sep (x # y # ys) = x @ sep @ str_join sep (y # ys)"

section \<open>Author sets and cliques\<close>

text \<open>
  The set of authors that a record gives (none for \<^verbatim>\<open>None\<close>), the edges and the nodes of
  the clique on a set of authors, and the set of authors of the record in a file (empty
  when the file cannot be loaded or parsed).
\<close>

definition author_set :: "string list option \<Rightarrow> string set" where
  "author_set authors = (case authors of None \<Rightarrow> {} | Some xs \<Rightarrow> set xs)"

definition clique_edges :: "string set \<Rightarrow> string set set" where
  "clique_edges A = (\<lambda>(a, b). {a, b}) ` {(a, b) \<in> A \<times> A. a \<noteq> b}"

definition clique_nodes :: "string set \<Rightarrow> string set" where
  "clique_nodes A = {a \<in> A. \<exists>b \<in> A. a \<noteq> b}"

definition file_author_set :: "filesystem \<Rightarrow> string \<Rightarrow> string set" where
  "file_author_set fs file_path =
     (case file_authors fs file_path of Inl e \<Rightarrow> {} | Inr authors \<Rightarrow> author_set authors)"

definition no_repetition :: "string list option \<Rightarrow> bool" where
  "no_repetition authors = (case authors of None \<Rightarrow> True | Some xs \<Rightarrow> distinct xs)"

section \<open>A sample directory\<close>

text \<open>
  Three records and a file that is not a record: two authors, one author, and three authors
  over two comments.
\<close>

definition sample_record :: "string list \<Rightarrow> json" where
  "sample_record comments = JObj [(''results'', JArr [JObj [(''comment'', JArr (map JStr comments))]])]"

definition sample_names :: "string list" where
  "sample_names = [''A000001.json'', ''A000002.json'', ''notes.txt'', ''A000003.json'']"

definition sample_fs :: filesystem where
  "sample_fs =
     \<lparr>fs_listdir = (\<lambda>d. if d = ''data/sequences/'' then Some sample_names else None),
      fs_files = map_of
        [(''data/sequences/A000001.json'', Document (sample_record [''_Alice Example_, _Dana Lee_''])),
         (''data/sequences/A000002.json'', Document (sample_record [''- Bob Carter (Jan 01 2020)''])),
         (''data/sequences/A000003.json'',
            Document (sample_record [''_Dana Lee_, _Alice Example_'', ''(Start) [Carl Ray, Dana Lee]'']))],
      fs_writable = (\<lambda>p. True)\<rparr>"

definition sample_graph :: graph where
  "sample_graph =
     [(''Dana Lee'', [''Alice Example'', ''Carl Ray'']),
      (''Alice Example'', [''Dana Lee'', ''Carl Ray'']),
      (''Carl Ray'', [''Alice Example'', ''Dana Lee''])]"

section \<open>Properties of the graph operations\<close>

lemma mem_adj_pairs: "(a, b) \<in> set (adj_pairs G) \<longleftrightarrow> (\<exists>ns. (a, ns) \<in> set G \<and> b \<in> set ns)"
  by (auto simp: adj_pairs_def)

lemma nodes_add_node: "set (nodes (add_node n G)) = insert n (set (nodes G))"
  by (auto simp: add_node_def nodes_def)

lemma distinct_add_node: "distinct (nodes G) \<Longrightarrow> distinct (nodes (add_node n G))"
  by (auto simp: add_node_def nodes_def)

lemma adj_pairs_add_node: "adj_pairs (add_node n G) = adj_pairs G"
  by (simp add: add_node_def adj_pairs_def)

lemma nodes_add_nbr: "nodes (add_nbr u v G) = nodes G"
  by (induction G) (auto simp: add_nbr_def nodes_def)

lemma adj_pairs_add_nbr:
  "u \<in> set (nodes G) \<Longrightarrow> set (adj_pairs (add_nbr u v G)) = insert (u, v) (set (adj_pairs G))"
proof (induction G)
  case Nil
  then show ?case by (simp add: nodes_def)
next
  case (Cons kn G)
  obtain k ns where kn: "kn = (k, ns)" by (cases kn)
  have step: "adj_pairs (add_nbr u v (kn # G)) =
      map (Pair k) (if k = u then (if v \<in> set ns then ns else ns @ [v]) else ns)
        @ adj_pairs (add_nbr u v G)"
    by (simp add: kn add_nbr_def adj_pairs_def)
  show ?case
  proof (cases "u \<in> set (nodes G)")
    case True
    with Cons.IH step show ?thesis
      by (auto simp: kn adj_pairs_def)
  next
    case False
    then have same: "add_nbr u v G = G"
      by (induction G) (auto simp: add_nbr_def nodes_def)
    from False Cons.prems have "k = u" by (auto simp: kn nodes_def)
    with step same show ?thesis
      by (auto simp: kn adj_pairs_def)
  qed
qed

lemma nodes_add_edge: "set (nodes (add_edge u v G)) = {u, v} \<union> set (nodes G)"
  by (auto simp: add_edge_def nodes_add_nbr nodes_add_node)

lemma distinct_add_edge: "distinct (nodes G) \<Longrightarrow> distinct (nodes (add_edge u v G))"
  by (simp add: add_edge_def nodes_add_nbr distinct_add_node)

lemma adj_pairs_add_edge:
  "set (adj_pairs (add_edge u v G)) = {(u, v), (v, u)} \<union> set (adj_pairs G)"
proof -
  let ?G1 = "add_node v (add_node u G)"
  have u: "u \<in> set (nodes ?G1)" and v: "v \<in> set (nodes (add_nbr u v ?G1))"
    by (simp_all add: nodes_add_nbr nodes_add_node)
  show ?thesis
    unfolding add_edge_def
    by (simp add: adj_pairs_add_nbr [OF v] adj_pairs_add_nbr [OF u] adj_pairs_add_node insert_commute)
qed

lemma nodes_add_edges_from:
  "set (nodes (add_edges_from es G)) = set (nodes G) \<union> fst ` set es \<union> snd ` set es"
  unfolding add_edges_from_def
  by (induction es arbitrary: G) (auto simp: nodes_add_edge)

lemma distinct_add_edges_from:
  "distinct (nodes G) \<Longrightarrow> distinct (nodes (add_edges_from es G))"
  unfolding add_edges_from_def
  by (induction es arbitrary: G) (auto simp: distinct_add_edge)

lemma adj_pairs_add_edges_from:
  "set (adj_pairs (add_edges_from es G)) = set (adj_pairs G) \<union> set es \<union> (set es)\<inverse>"
  unfolding add_edges_from_def
  by (induction es arbitrary: G) (auto simp: adj_pairs_add_edge)

lemma edge_set_add_edges_from:
  "edge_set (add_edges_from es G) = edge_set G \<union> (\<lambda>(u, v). {u, v}) ` set es"
  unfolding edge_set_def adj_pairs_add_edges_from
  by (auto simp: image_Un insert_commute) 

lemma graph_inv_add_edges_from:
  "graph_inv G \<Longrightarrow> graph_inv (add_edges_from es G)"
  unfolding graph_inv_def
  by (auto simp: distinct_add_edges_from adj_pairs_add_edges_from)

section \<open>Missing and empty fields\<close>

lemma comment_absent_returns_none:
  "map_of kvs ''results'' = Some (JArr (JObj entry # rest)) \<Longrightarrow> map_of entry ''comment'' = None \<Longrightarrow>
     parse_authors_from_comments (JObj kvs) = Inr None"
  by (simp add: parse_authors_from_comments_def)

lemma results_absent_any:
  "map_of kvs ''results'' = None \<Longrightarrow> parse_authors_from_comments (JObj kvs) = Inl TypeError"
  by (simp add: parse_authors_from_comments_def)

text \<open>
  C3. A record without the \<^verbatim>\<open>results\<close> key: \<^verbatim>\<open>raw_data.get('results')\<close> is \<^verbatim>\<open>None\<close>, and
  \<^verbatim>\<open>None[0]\<close> raises \<^verbatim>\<open>TypeError\<close>; the extraction does not return an empty result.
\<close>

theorem results_absent_raises:
  "parse_authors_from_comments (JObj []) = Inl TypeError"
  by (simp add: parse_authors_from_comments_def)

text \<open>
  C10. A record whose \<^verbatim>\<open>results\<close> key is present and maps to the empty list: the access
  to element 0 of the list raises \<^verbatim>\<open>IndexError\<close>, and no author set is returned.
\<close>

theorem results_empty_raises:
  "map_of kvs ''results'' = Some (JArr []) \<Longrightarrow>
     parse_authors_from_comments (JObj kvs) = Inl IndexError"
  by (simp add: parse_authors_from_comments_def)

theorem results_empty_raises_witness:
  "map_of [(''results'', JArr [])] ''results'' = Some (JArr [])
   \<and> parse_authors_from_comments (JObj [(''results'', JArr [])]) = Inl IndexError"
  using results_empty_raises [of "[(''results'', JArr [])]"] by simp

section \<open>A file that cannot be opened\<close>

lemma load_json_cannot_open:
  "fs_files fs file_path = None \<Longrightarrow>
     load_json fs file_path print_content = ([], Inl (UnboundLocalError (OSError file_path)))"
  by (simp add: load_json_def)

lemma file_authors_cannot_open:
  "fs_files fs file_path = None \<Longrightarrow>
     file_authors fs file_path = Inl (UnboundLocalError (OSError file_path))"
  by (simp add: file_authors_def load_json_def)

lemma parse_files_cannot_open:
  "f \<in> set file_list \<Longrightarrow> fs_files fs (dir_path @ f) = None \<Longrightarrow>
     \<exists>e. parse_files fs dir_path file_list G = Inl e"
  by (induction file_list arbitrary: G) (auto simp: file_authors_cannot_open split: sum.splits)

text \<open>
  C9. On a path that cannot be opened, \<open>load_json\<close> raises an exception (the
  \<^verbatim>\<open>UnboundLocalError\<close> of line 33, raised while the \<^verbatim>\<open>OSError\<close> of \<^verbatim>\<open>open\<close> was being
  handled) and prints nothing itself; the exception ends the process with the non-zero exit
  status 1, and the traceback written on the standard error stream reports the \<^verbatim>\<open>OSError\<close>,
  whose message names the path.
\<close>

theorem unopenable_file_ends_process:
  assumes "fs_files fs file_path = None"
  shows "\<exists>e. load_json fs file_path print_content = ([], Inl e)
           \<and> exit_status e = 1
           \<and> OSError file_path \<in> set (traceback e)"
proof -
  have "load_json fs file_path print_content = ([], Inl (UnboundLocalError (OSError file_path)))"
    using assms by (rule load_json_cannot_open)
  moreover have "exit_status (UnboundLocalError (OSError file_path)) = 1" by simp
  moreover have "OSError file_path \<in> set (traceback (UnboundLocalError (OSError file_path)))"
    by simp
  ultimately show ?thesis by blast
qed

theorem unopenable_file_ends_process_witness:
  "fs_files sample_fs ''data/sequences/A000009.json'' = None
   \<and> (\<exists>e. load_json sample_fs ''data/sequences/A000009.json'' False = ([], Inl e)
           \<and> exit_status e = 1
           \<and> OSError ''data/sequences/A000009.json'' \<in> set (traceback e))"
proof -
  have h: "fs_files sample_fs ''data/sequences/A000009.json'' = None"
    by (simp add: sample_fs_def)
  from h unopenable_file_ends_process [OF h, of False] show ?thesis by (rule conjI)
qed

section \<open>Properties of the builder\<close>

lemma set_combinations2:
  "distinct xs \<Longrightarrow>
     set (combinations2 xs) \<union> (set (combinations2 xs))\<inverse> = {(a, b). a \<in> set xs \<and> b \<in> set xs \<and> a \<noteq> b}"
  by (induction xs) auto

lemma length_combinations2: "length (combinations2 xs) = length xs choose 2"
  by (induction xs) (auto simp: choose_two numeral_2_eq_2)

lemma combinations2_subset: "(a, b) \<in> set (combinations2 xs) \<Longrightarrow> a \<in> set xs \<and> b \<in> set xs"
  by (induction xs) auto

lemma distinct_combinations2: "distinct xs \<Longrightarrow> distinct (combinations2 xs)"
  by (induction xs) (auto simp: distinct_map inj_on_def dest: combinations2_subset)

lemma pairs_combinations2:
  assumes "distinct xs"
  shows "(\<lambda>(u, v). {u, v}) ` set (combinations2 xs) = clique_edges (set xs)"
proof -
  have "(\<lambda>(u, v). {u, v}) ` set (combinations2 xs)
      = (\<lambda>(u, v). {u, v}) ` (set (combinations2 xs) \<union> (set (combinations2 xs))\<inverse>)"
    by (auto simp: image_Un insert_commute image_iff)
  then show ?thesis
    unfolding set_combinations2 [OF assms] clique_edges_def by auto
qed

lemma ends_combinations2:
  assumes "distinct xs"
  shows "fst ` set (combinations2 xs) \<union> snd ` set (combinations2 xs) = clique_nodes (set xs)"
proof -
  have "fst ` set (combinations2 xs) \<union> snd ` set (combinations2 xs)
      = Domain (set (combinations2 xs) \<union> (set (combinations2 xs))\<inverse>)"
    by (simp add: Domain_fst [symmetric] Range_snd [symmetric] Domain_Un_eq)
  also have "\<dots> = clique_nodes (set xs)"
    unfolding set_combinations2 [OF assms] clique_nodes_def by (auto simp: Domain_iff)
  finally show ?thesis .
qed

lemma clique_edges_small [simp]: "clique_edges {} = {}" "clique_edges {a} = {}"
  by (auto simp: clique_edges_def)

lemma clique_nodes_small [simp]: "clique_nodes {} = {}" "clique_nodes {a} = {}"
  by (auto simp: clique_nodes_def)

lemma edge_set_add_authors:
  "no_repetition authors \<Longrightarrow>
     edge_set (add_authors authors G) = edge_set G \<union> clique_edges (author_set authors)"
  by (auto simp: add_authors_def no_repetition_def author_set_def edge_set_add_edges_from
      pairs_combinations2 split: option.splits)

lemma node_set_add_authors:
  "no_repetition authors \<Longrightarrow>
     node_set (add_authors authors G) = node_set G \<union> clique_nodes (author_set authors)"
  by (auto simp: add_authors_def no_repetition_def author_set_def node_set_def
      nodes_add_edges_from Un_assoc ends_combinations2 split: option.splits)

lemma graph_inv_add_authors: "graph_inv G \<Longrightarrow> graph_inv (add_authors authors G)"
  by (auto simp: add_authors_def graph_inv_add_edges_from split: option.splits)

lemma distinct_set_update: "distinct authors \<Longrightarrow> distinct (set_update authors names)"
  unfolding set_update_def by (induction names arbitrary: authors) auto

lemma set_set_update: "set (set_update authors names) = set authors \<union> set names"
  unfolding set_update_def by (induction names arbitrary: authors) auto

lemma distinct_collect_authors:
  "collect_authors cs authors = Inr xs \<Longrightarrow> distinct authors \<Longrightarrow> distinct xs"
  by (induction cs authors rule: collect_authors.induct) (auto simp: distinct_set_update)

lemma no_repetition_parse:
  "parse_authors_from_comments raw_data = Inr authors \<Longrightarrow> no_repetition authors"
  by (auto simp: parse_authors_from_comments_def no_repetition_def
      split: sum.splits if_splits option.splits dest: distinct_collect_authors)

lemma no_repetition_file:
  "file_authors fs file_path = Inr authors \<Longrightarrow> no_repetition authors"
  by (auto simp: file_authors_def split: sum.splits dest: no_repetition_parse)

lemma parse_files_sets:
  "parse_files fs dir_path file_list G = Inr G' \<Longrightarrow>
     (\<forall>f \<in> set file_list. \<exists>authors. file_authors fs (dir_path @ f) = Inr authors)
     \<and> edge_set G' = edge_set G \<union> (\<Union>f \<in> set file_list. clique_edges (file_author_set fs (dir_path @ f)))
     \<and> node_set G' = node_set G \<union> (\<Union>f \<in> set file_list. clique_nodes (file_author_set fs (dir_path @ f)))"
proof (induction file_list arbitrary: G)
  case Nil
  then show ?case by simp
next
  case (Cons f file_list)
  from Cons.prems obtain authors where au: "file_authors fs (dir_path @ f) = Inr authors"
    and rest: "parse_files fs dir_path file_list (add_authors authors G) = Inr G'"
    by (auto split: sum.splits)
  have fas: "file_author_set fs (dir_path @ f) = author_set authors"
    by (simp add: file_author_set_def au)
  note nr = no_repetition_file [OF au]
  from Cons.IH [OF rest] show ?case
    by (simp add: au fas edge_set_add_authors [OF nr] node_set_add_authors [OF nr] Un_assoc)
qed

lemma parse_files_succeeds:
  "\<forall>f \<in> set file_list. \<exists>authors. file_authors fs (dir_path @ f) = Inr authors \<Longrightarrow>
     \<exists>G'. parse_files fs dir_path file_list G = Inr G'"
  by (induction file_list arbitrary: G) auto

lemma parse_files_inv:
  "parse_files fs dir_path file_list G = Inr G' \<Longrightarrow> graph_inv G \<Longrightarrow> graph_inv G'"
  by (induction file_list arbitrary: G) (auto split: sum.splits simp: graph_inv_add_authors)

lemma empty_graph [simp]: "edge_set [] = {}" "node_set [] = {}" "graph_inv []"
  by (simp_all add: edge_set_def node_set_def graph_inv_def adj_pairs_def nodes_def)

lemma clique_edges_iff: "a \<noteq> b \<Longrightarrow> {a, b} \<in> clique_edges A \<longleftrightarrow> a \<in> A \<and> b \<in> A"
  by (auto simp: clique_edges_def doubleton_eq_iff)

lemma clique_edges_subsets: "clique_edges A = {B. B \<subseteq> A \<and> card B = 2}"
proof (rule set_eqI)
  fix B
  show "B \<in> clique_edges A \<longleftrightarrow> B \<in> {B. B \<subseteq> A \<and> card B = 2}"
  proof
    assume "B \<in> clique_edges A"
    then obtain a b where "B = {a, b}" "a \<in> A" "b \<in> A" "a \<noteq> b"
      by (auto simp: clique_edges_def)
    then show "B \<in> {B. B \<subseteq> A \<and> card B = 2}" by simp
  next
    assume "B \<in> {B. B \<subseteq> A \<and> card B = 2}"
    then have sub: "B \<subseteq> A" and "card B = 2" by simp_all
    then obtain a b where "B = {a, b}" "a \<noteq> b" by (auto simp: card_2_iff)
    with sub show "B \<in> clique_edges A"
      by (auto simp: clique_edges_def image_iff intro!: bexI [of _ "(a, b)"])
  qed
qed

lemma card_clique_edges: "finite A \<Longrightarrow> card (clique_edges A) = card A choose 2"
  by (simp add: clique_edges_subsets n_subsets)

lemma clique_edges_card2: "e \<in> clique_edges A \<Longrightarrow> card e = 2"
  by (simp add: clique_edges_subsets)

lemma finite_edge_set: "finite (edge_set G)"
  by (simp add: edge_set_def)

lemma build_parse_files:
  assumes "build_graph_from_directory fs dir_path save filename = Inr (fs', G)"
    and "fs_listdir fs (with_slash dir_path) = Some names"
  shows "parse_files fs (with_slash dir_path) (json_files names) [] = Inr G"
  using assms
  by (auto simp: build_graph_from_directory_def split: if_splits sum.splits)

lemma build_sets:
  assumes "build_graph_from_directory fs dir_path save filename = Inr (fs', G)"
    and "fs_listdir fs (with_slash dir_path) = Some names"
  shows "edge_set G = (\<Union>f \<in> set (json_files names). clique_edges (file_author_set fs (with_slash dir_path @ f)))"
    and "node_set G = (\<Union>f \<in> set (json_files names). clique_nodes (file_author_set fs (with_slash dir_path @ f)))"
    and "\<forall>f \<in> set (json_files names). \<exists>authors. file_authors fs (with_slash dir_path @ f) = Inr authors"
  using parse_files_sets [OF build_parse_files [OF assms]] by simp_all

text \<open>
  C1. When the builder returns a graph \<open>G\<close> for a directory, two different authors \<open>a\<close> and
  \<open>b\<close> are joined by an edge of \<open>G\<close> exactly when the record of some file of the directory
  has both in its author set; every edge has two distinct ends, so no edge pairs an author
  with itself.
\<close>

theorem edge_iff_coauthors:
  assumes "build_graph_from_directory fs dir_path save filename = Inr (fs', G)"
    and "fs_listdir fs (with_slash dir_path) = Some names"
  shows "(a \<noteq> b \<longrightarrow>
           ({a, b} \<in> edge_set G \<longleftrightarrow>
              (\<exists>f \<in> set (json_files names).
                  a \<in> file_author_set fs (with_slash dir_path @ f)
                  \<and> b \<in> file_author_set fs (with_slash dir_path @ f))))
         \<and> (\<forall>e \<in> edge_set G. card e = 2)"
proof -
  note es = build_sets(1) [OF assms]
  have "\<forall>e \<in> edge_set G. card e = 2"
    unfolding es by (auto dest: clique_edges_card2)
  moreover have "a \<noteq> b \<longrightarrow> ({a, b} \<in> edge_set G \<longleftrightarrow>
              (\<exists>f \<in> set (json_files names).
                  a \<in> file_author_set fs (with_slash dir_path @ f)
                  \<and> b \<in> file_author_set fs (with_slash dir_path @ f)))"
    unfolding es by (simp add: clique_edges_iff)
  ultimately show ?thesis by blast
qed

text \<open>
  C2. When the builder returns a graph \<open>G\<close> for a directory, \<open>a\<close> is a node of \<open>G\<close> exactly
  when the record of some file has \<open>a\<close> in its author set together with another author; a
  record with exactly one author leaves the graph as it is.
\<close>

theorem node_iff_coauthor:
  assumes "build_graph_from_directory fs dir_path save filename = Inr (fs', G)"
    and "fs_listdir fs (with_slash dir_path) = Some names"
  shows "(a \<in> node_set G \<longleftrightarrow>
            (\<exists>f \<in> set (json_files names).
                a \<in> file_author_set fs (with_slash dir_path @ f)
                \<and> (\<exists>b \<in> file_author_set fs (with_slash dir_path @ f). b \<noteq> a)))
         \<and> add_authors (Some [x]) H = H"
proof -
  have "add_authors (Some [x]) H = H"
    by (simp add: add_authors_def add_edges_from_def)
  moreover have "a \<in> node_set G \<longleftrightarrow>
            (\<exists>f \<in> set (json_files names).
                a \<in> file_author_set fs (with_slash dir_path @ f)
                \<and> (\<exists>b \<in> file_author_set fs (with_slash dir_path @ f). b \<noteq> a))"
    unfolding build_sets(2) [OF assms] clique_nodes_def by auto
  ultimately show ?thesis by blast
qed

text \<open>
  C4. For a record whose author set has \<open>k\<close> members: when \<open>k < 2\<close> the graph is left as it
  is; when \<open>k \<ge> 2\<close> the builder passes \<open>C(k, 2)\<close> pairs to \<open>add_edges_from\<close>, the edge set
  becomes the old one together with every unordered pair of the author set, of which there
  are \<open>C(k, 2)\<close>, and the number of edges grows by exactly \<open>C(k, 2)\<close> when none of them was
  there before.
\<close>

theorem record_adds_clique:
  assumes "parse_authors_from_comments raw_data = Inr authors"
    and "k = card (author_set authors)"
  shows "(k < 2 \<longrightarrow> add_authors authors G = G)
       \<and> (2 \<le> k \<longrightarrow>
            (\<exists>xs. authors = Some xs \<and> length (combinations2 xs) = k choose 2)
            \<and> edge_set (add_authors authors G) = edge_set G \<union> clique_edges (author_set authors)
            \<and> card (clique_edges (author_set authors)) = k choose 2
            \<and> (edge_set G \<inter> clique_edges (author_set authors) = {} \<longrightarrow>
                 card (edge_set (add_authors authors G)) = card (edge_set G) + (k choose 2)))"
proof -
  note nr = no_repetition_parse [OF assms(1)]
  have fin: "finite (author_set authors)"
    by (simp add: author_set_def split: option.splits)
  have cc: "card (clique_edges (author_set authors)) = k choose 2"
    by (simp add: assms(2) card_clique_edges [OF fin])
  have fc: "finite (clique_edges (author_set authors))"
  proof (rule finite_subset)
    show "clique_edges (author_set authors) \<subseteq> Pow (author_set authors)"
      by (auto simp: clique_edges_subsets)
    show "finite (Pow (author_set authors))" using fin by simp
  qed
  have small: "k < 2 \<longrightarrow> add_authors authors G = G"
  proof
    assume k: "k < 2"
    show "add_authors authors G = G"
    proof (cases authors)
      case None
      then show ?thesis by (simp add: add_authors_def)
    next
      case (Some xs)
      with nr have "distinct xs" by (simp add: no_repetition_def)
      with k Some assms(2) have "length xs < 2"
        by (simp add: author_set_def distinct_card)
      then have "combinations2 xs = []"
        by (cases xs rule: combinations2.cases) (auto simp: neq_Nil_conv)
      with Some show ?thesis by (simp add: add_authors_def add_edges_from_def)
    qed
  qed
  have len: "2 \<le> k \<longrightarrow> (\<exists>xs. authors = Some xs \<and> length (combinations2 xs) = k choose 2)"
  proof
    assume k: "2 \<le> k"
    with assms(2) obtain xs where xs: "authors = Some xs"
      by (cases authors) (auto simp: author_set_def)
    with nr have "distinct xs" by (simp add: no_repetition_def)
    with xs assms(2) have "k = length xs" by (simp add: author_set_def distinct_card)
    with xs show "\<exists>xs. authors = Some xs \<and> length (combinations2 xs) = k choose 2"
      by (simp add: length_combinations2)
  qed
  note es = edge_set_add_authors [OF nr, of G]
  have cnt: "edge_set G \<inter> clique_edges (author_set authors) = {} \<longrightarrow>
      card (edge_set (add_authors authors G)) = card (edge_set G) + (k choose 2)"
  proof
    assume "edge_set G \<inter> clique_edges (author_set authors) = {}"
    from card_Un_disjoint [OF finite_edge_set fc this]
    show "card (edge_set (add_authors authors G)) = card (edge_set G) + (k choose 2)"
      by (simp only: es cc)
  qed
  show ?thesis
  proof (intro conjI impI)
    assume "k < 2"
    with small show "add_authors authors G = G" by (rule mp)
  next
    assume "2 \<le> k"
    with len show "\<exists>xs. authors = Some xs \<and> length (combinations2 xs) = k choose 2" by (rule mp)
  next
    show "edge_set (add_authors authors G) = edge_set G \<union> clique_edges (author_set authors)"
      by (rule es)
  next
    show "card (clique_edges (author_set authors)) = k choose 2" by (rule cc)
  next
    assume "edge_set G \<inter> clique_edges (author_set authors) = {}"
    with cnt show "card (edge_set (add_authors authors G)) = card (edge_set G) + (k choose 2)"
      by (rule mp)
  qed
qed

lemma json_files_perm: "mset names' = mset names \<Longrightarrow> set (json_files names') = set (json_files names)"
  unfolding json_files_def by (metis mset_filter set_mset_mset)

text \<open>
  C5. The edge set and the node set of the built graph are the unions, over the files of the
  directory, of the edges and the nodes of the clique on each file's author set; and when
  the directory lists its files in any other order, the builder returns a graph with the
  same edge set and the same node set.
\<close>

theorem union_law_any_order:
  assumes "build_graph_from_directory fs dir_path save filename = Inr (fs', G)"
    and "fs_listdir fs (with_slash dir_path) = Some names"
    and "mset names' = mset names"
  shows "edge_set G = (\<Union>f \<in> set (json_files names). clique_edges (file_author_set fs (with_slash dir_path @ f)))
       \<and> node_set G = (\<Union>f \<in> set (json_files names). clique_nodes (file_author_set fs (with_slash dir_path @ f)))
       \<and> (\<exists>fs'' G'. build_graph_from_directory
              (fs\<lparr>fs_listdir := (fs_listdir fs)(with_slash dir_path \<mapsto> names')\<rparr>) dir_path save filename
              = Inr (fs'', G')
            \<and> edge_set G' = edge_set G \<and> node_set G' = node_set G)"
proof -
  let ?d = "with_slash dir_path"
  let ?fs2 = "fs\<lparr>fs_listdir := (fs_listdir fs)(?d \<mapsto> names')\<rparr>"
  note b = build_sets [OF assms(1,2)]
  note perm = json_files_perm [OF assms(3)]
  have fa: "file_authors ?fs2 p = file_authors fs p" for p
    by (simp add: file_authors_def load_json_def)
  then have fas: "file_author_set ?fs2 p = file_author_set fs p" for p
    by (simp add: file_author_set_def)
  have "\<forall>f \<in> set (json_files names'). \<exists>authors. file_authors ?fs2 (?d @ f) = Inr authors"
    using b(3) by (simp add: fa perm)
  from parse_files_succeeds [OF this]
  obtain G' where G': "parse_files ?fs2 ?d (json_files names') [] = Inr G'" by blast
  from assms(1) have ne: "dir_path \<noteq> []" and w: "save \<longrightarrow> fs_writable fs (save_path ?d filename)"
    by (auto simp: build_graph_from_directory_def split: if_splits option.splits sum.splits)
  have run: "\<exists>fs''. build_graph_from_directory ?fs2 dir_path save filename = Inr (fs'', G')"
    using ne w G' by (simp add: build_graph_from_directory_def)
  from parse_files_sets [OF G']
  have "edge_set G' = edge_set G" and "node_set G' = node_set G"
    by (simp_all add: fas perm b(1,2))
  with run b(1,2) show ?thesis by blast
qed

lemma sample_authors:
  "file_authors sample_fs ''data/sequences/A000001.json'' = Inr (Some [''Dana Lee'', ''Alice Example''])"
  "file_authors sample_fs ''data/sequences/A000002.json'' = Inr (Some [''Bob Carter''])"
  "file_authors sample_fs ''data/sequences/A000003.json'' = Inr (Some [''Carl Ray'', ''Alice Example'', ''Dana Lee''])"
  by code_simp+


lemma sample_listing:
  "fs_listdir sample_fs (with_slash ''data/sequences'') = Some sample_names"
  by (simp add: sample_fs_def with_slash_def)

lemma sample_parse_files:
  "parse_files sample_fs (with_slash ''data/sequences'') (json_files sample_names) [] = Inr sample_graph"
  by code_simp

lemma sample_build:
  "build_graph_from_directory sample_fs ''data/sequences'' False ''g'' = Inr (sample_fs, sample_graph)"
  by (simp add: build_graph_from_directory_def sample_listing sample_parse_files)

lemma sample_coauthors:
  "\<exists>f \<in> set (json_files sample_names).
      ''Alice Example'' \<in> file_author_set sample_fs (with_slash ''data/sequences'' @ f)
      \<and> ''Carl Ray'' \<in> file_author_set sample_fs (with_slash ''data/sequences'' @ f)"
  by code_simp

lemma sample_coauthor:
  "\<exists>f \<in> set (json_files sample_names).
      ''Carl Ray'' \<in> file_author_set sample_fs (with_slash ''data/sequences'' @ f)
      \<and> (\<exists>b \<in> file_author_set sample_fs (with_slash ''data/sequences'' @ f). b \<noteq> ''Carl Ray'')"
  by code_simp

theorem edge_iff_coauthors_witness:
  "build_graph_from_directory sample_fs ''data/sequences'' False ''g'' = Inr (sample_fs, sample_graph)
   \<and> fs_listdir sample_fs (with_slash ''data/sequences'') = Some sample_names
   \<and> {''Alice Example'', ''Carl Ray''} \<in> edge_set sample_graph
   \<and> card {''Alice Example'', ''Carl Ray''} = 2"
proof -
  note t = edge_iff_coauthors [OF sample_build sample_listing,
      where a = "''Alice Example''" and b = "''Carl Ray''"]
  have ne: "''Alice Example'' \<noteq> ''Carl Ray''" by simp
  from t [THEN conjunct1, THEN mp, OF ne, THEN iffD2, OF sample_coauthors]
  have e: "{''Alice Example'', ''Carl Ray''} \<in> edge_set sample_graph" .
  from t [THEN conjunct2, THEN bspec, OF e]
  have c: "card {''Alice Example'', ''Carl Ray''} = 2" .
  show ?thesis by (intro conjI sample_build sample_listing e c)
qed

theorem node_iff_coauthor_witness:
  "build_graph_from_directory sample_fs ''data/sequences'' False ''g'' = Inr (sample_fs, sample_graph)
   \<and> fs_listdir sample_fs (with_slash ''data/sequences'') = Some sample_names
   \<and> ''Carl Ray'' \<in> node_set sample_graph
   \<and> add_authors (Some [''Bob Carter'']) sample_graph = sample_graph"
proof -
  note t = node_iff_coauthor [OF sample_build sample_listing,
      where a = "''Carl Ray''" and x = "''Bob Carter''" and H = sample_graph]
  from t [THEN conjunct1, THEN iffD2, OF sample_coauthor]
  have n: "''Carl Ray'' \<in> node_set sample_graph" .
  show ?thesis by (intro conjI sample_build sample_listing n t [THEN conjunct2])
qed

lemma sample_parse:
  "parse_authors_from_comments (sample_record [''_Dana Lee_, _Alice Example_'', ''(Start) [Carl Ray, Dana Lee]''])
     = Inr (Some [''Carl Ray'', ''Alice Example'', ''Dana Lee''])"
  by code_simp

lemma sample_card: "3 = card (author_set (Some [''Carl Ray'', ''Alice Example'', ''Dana Lee'']))"
  by (simp add: author_set_def)

theorem record_adds_clique_witness:
  "parse_authors_from_comments (sample_record [''_Dana Lee_, _Alice Example_'', ''(Start) [Carl Ray, Dana Lee]''])
     = Inr (Some [''Carl Ray'', ''Alice Example'', ''Dana Lee''])
   \<and> 3 = card (author_set (Some [''Carl Ray'', ''Alice Example'', ''Dana Lee'']))
   \<and> card (edge_set (add_authors (Some [''Carl Ray'', ''Alice Example'', ''Dana Lee'']) [])) = 3"
proof -
  note r = record_adds_clique [OF sample_parse sample_card, of "[]"]
  have two: "(2::nat) \<le> 3" by simp
  have disj: "edge_set [] \<inter> clique_edges (author_set (Some [''Carl Ray'', ''Alice Example'', ''Dana Lee''])) = {}"
    by (simp only: empty_graph Int_empty_left)
  from r [THEN conjunct2, THEN mp, OF two, THEN conjunct2, THEN conjunct2, THEN conjunct2, THEN mp, OF disj]
  have "card (edge_set (add_authors (Some [''Carl Ray'', ''Alice Example'', ''Dana Lee'']) []))
      = card (edge_set []) + (3 choose 2)" .
  then have c: "card (edge_set (add_authors (Some [''Carl Ray'', ''Alice Example'', ''Dana Lee'']) [])) = 3"
    by (simp add: choose_two)
  show ?thesis by (intro conjI sample_parse sample_card c)
qed

lemma sample_perm: "mset (rev sample_names) = mset sample_names"
  by simp

theorem union_law_any_order_witness:
  "build_graph_from_directory sample_fs ''data/sequences'' False ''g'' = Inr (sample_fs, sample_graph)
   \<and> fs_listdir sample_fs (with_slash ''data/sequences'') = Some sample_names
   \<and> mset (rev sample_names) = mset sample_names
   \<and> (\<exists>fs'' G'. build_graph_from_directory
              (sample_fs\<lparr>fs_listdir := (fs_listdir sample_fs)(with_slash ''data/sequences'' \<mapsto> rev sample_names)\<rparr>)
              ''data/sequences'' False ''g''
              = Inr (fs'', G')
            \<and> edge_set G' = edge_set sample_graph \<and> node_set G' = node_set sample_graph)"
  by (intro conjI sample_build sample_listing sample_perm
      union_law_any_order [OF sample_build sample_listing sample_perm, THEN conjunct2, THEN conjunct2])

section \<open>The node-link document\<close>

lemma edges_from_sound:
  "(u, v) \<in> set (edges_from seen G) \<Longrightarrow> (u, v) \<in> set (adj_pairs G)"
  by (induction seen G rule: edges_from.induct) (auto simp: adj_pairs_def)

lemma adj_pairs_Cons: "adj_pairs ((n, ns) # G) = map (Pair n) ns @ adj_pairs G"
  by (simp add: adj_pairs_def)

lemma adj_pairs_node: "(u, v) \<in> set (adj_pairs G) \<Longrightarrow> u \<in> set (nodes G)"
  by (force simp: mem_adj_pairs nodes_def)

lemma edges_from_complete:
  "distinct (nodes G) \<Longrightarrow> (u, v) \<in> set (adj_pairs G) \<Longrightarrow> u \<notin> set seen \<Longrightarrow> v \<notin> set seen \<Longrightarrow>
     (v \<in> set (nodes G) \<longrightarrow> (v, u) \<in> set (adj_pairs G)) \<Longrightarrow>
     (u, v) \<in> set (edges_from seen G) \<or> (v, u) \<in> set (edges_from seen G)"
proof (induction seen G rule: edges_from.induct)
  case (1 seen)
  then show ?case by (simp add: adj_pairs_def)
next
  case (2 seen n nbrs G)
  from "2.prems"(1) have dn: "n \<notin> set (nodes G)" and dG: "distinct (nodes G)"
    by (simp_all add: nodes_def)
  show ?case
  proof (cases "u = n")
    case True
    with "2.prems"(2) dn have "v \<in> set nbrs"
      by (auto simp: adj_pairs_Cons dest: adj_pairs_node)
    with True "2.prems"(4) show ?thesis by simp
  next
    case un: False
    with "2.prems"(2) have uv: "(u, v) \<in> set (adj_pairs G)"
      by (auto simp: adj_pairs_Cons)
    show ?thesis
    proof (cases "v = n")
      case True
      with "2.prems"(5) have "(n, u) \<in> set (adj_pairs ((n, nbrs) # G))"
        by (simp add: nodes_def)
      with dn have "u \<in> set nbrs"
        by (auto simp: adj_pairs_Cons dest: adj_pairs_node)
      with True "2.prems"(3) show ?thesis by simp
    next
      case vn: False
      have sym: "v \<in> set (nodes G) \<longrightarrow> (v, u) \<in> set (adj_pairs G)"
        using "2.prems"(5) vn by (auto simp: adj_pairs_Cons nodes_def)
      from "2.IH" [OF dG uv _ _ sym] un vn "2.prems"(3,4)
      have "(u, v) \<in> set (edges_from (n # seen) G) \<or> (v, u) \<in> set (edges_from (n # seen) G)"
        by simp
      then show ?thesis by auto
    qed
  qed
qed

lemma edge_set_edges:
  assumes "graph_inv G"
  shows "(\<lambda>(u, v). {u, v}) ` set (edges G) = edge_set G"
proof
  show "(\<lambda>(u, v). {u, v}) ` set (edges G) \<subseteq> edge_set G"
    unfolding edge_set_def edges_def by (auto dest: edges_from_sound)
next
  show "edge_set G \<subseteq> (\<lambda>(u, v). {u, v}) ` set (edges G)"
  proof
    fix e assume "e \<in> edge_set G"
    then obtain u v where e: "e = {u, v}" and uv: "(u, v) \<in> set (adj_pairs G)"
      by (auto simp: edge_set_def)
    from assms uv have vu: "(v, u) \<in> set (adj_pairs G)" and d: "distinct (nodes G)"
      by (auto simp: graph_inv_def)
    from edges_from_complete [OF d uv, of "[]"] vu
    have "(u, v) \<in> set (edges G) \<or> (v, u) \<in> set (edges G)"
      by (simp add: edges_def)
    then show "e \<in> (\<lambda>(u, v). {u, v}) ` set (edges G)"
    proof
      assume "(u, v) \<in> set (edges G)"
      then show ?thesis unfolding e by (rule rev_image_eqI) simp
    next
      assume "(v, u) \<in> set (edges G)"
      then show ?thesis unfolding e by (rule rev_image_eqI) (simp add: insert_commute)
    qed
  qed
qed

lemma edges_ends:
  assumes "graph_inv G"
  shows "fst ` set (edges G) \<union> snd ` set (edges G) \<subseteq> node_set G"
proof -
  have "(u, v) \<in> set (edges G) \<Longrightarrow> u \<in> node_set G \<and> v \<in> node_set G" for u v
  proof -
    assume "(u, v) \<in> set (edges G)"
    then have uv: "(u, v) \<in> set (adj_pairs G)"
      by (simp add: edges_def edges_from_sound)
    with assms have "(v, u) \<in> set (adj_pairs G)" by (auto simp: graph_inv_def)
    with uv show ?thesis by (simp add: node_set_def adj_pairs_node)
  qed
  then show ?thesis by auto
qed

lemma those_node_of: "those (map (node_of \<circ> (\<lambda>n. JObj [(''id'', JStr n)])) ns) = Some ns"
  by (induction ns) simp_all

lemma those_link_of:
  "those (map (link_of \<circ> (\<lambda>(u, v). JObj [(''source'', JStr u), (''target'', JStr v)])) es) = Some es"
  by (induction es) auto

lemma node_link_graph_doc:
  "node_link_graph (node_link_doc ns es) = Some (add_edges_from es (fold add_node ns []))"
  by (simp add: node_link_graph_def node_link_doc_def those_node_of those_link_of)

lemma nodes_fold_add_node: "set (nodes (fold add_node ns G)) = set ns \<union> set (nodes G)"
  by (induction ns arbitrary: G) (auto simp: nodes_add_node)

lemma adj_pairs_fold_add_node: "adj_pairs (fold add_node ns G) = adj_pairs G"
  by (induction ns arbitrary: G) (auto simp: adj_pairs_add_node)

lemma decoded_sets:
  assumes "graph_inv G" and "set ns = set (nodes G)" and "set es = set (edges G)"
  shows "node_set (add_edges_from es (fold add_node ns [])) = node_set G"
    and "edge_set (add_edges_from es (fold add_node ns [])) = edge_set G"
proof -
  from edges_ends [OF assms(1)]
  have "fst ` set (edges G) \<union> snd ` set (edges G) \<subseteq> set (nodes G)"
    by (simp add: node_set_def)
  moreover have "nodes [] = []" by (simp add: nodes_def)
  ultimately show "node_set (add_edges_from es (fold add_node ns [])) = node_set G"
    by (auto simp: node_set_def nodes_add_edges_from nodes_fold_add_node assms(2,3))
  have "adj_pairs (fold add_node ns []) = []"
    unfolding adj_pairs_fold_add_node by (simp add: adj_pairs_def)
  then have "edge_set (fold add_node ns []) = {}"
    by (simp add: edge_set_def)
  then show "edge_set (add_edges_from es (fold add_node ns [])) = edge_set G"
    by (simp add: edge_set_add_edges_from assms(3) edge_set_edges [OF assms(1)])
qed

text \<open>
  C6. For every graph that satisfies the invariant of \<^verbatim>\<open>networkx\<close>, decoding the document
  that encodes it gives a graph with the same node set and the same edge set; and so does
  decoding the document with its nodes and its links listed in any other order.
\<close>

theorem encode_decode_round_trip:
  assumes "graph_inv G" and "mset ns = mset (nodes G)" and "mset es = mset (edges G)"
  shows "(\<exists>G'. node_link_graph (node_link_data G) = Some G'
              \<and> node_set G' = node_set G \<and> edge_set G' = edge_set G)
       \<and> (\<exists>G'. node_link_graph (node_link_doc ns es) = Some G'
              \<and> node_set G' = node_set G \<and> edge_set G' = edge_set G)"
proof -
  from assms(2) have ns: "set ns = set (nodes G)" by (rule mset_eq_setD)
  from assms(3) have es: "set es = set (edges G)" by (rule mset_eq_setD)
  from decoded_sets [OF assms(1) ns es] decoded_sets [OF assms(1) refl refl]
  show ?thesis
    by (simp add: node_link_graph_doc node_link_data_def)
qed

lemma build_inv:
  "build_graph_from_directory fs dir_path save filename = Inr (fs', G) \<Longrightarrow> graph_inv G"
  by (auto simp: build_graph_from_directory_def split: if_splits option.splits sum.splits
      dest: parse_files_inv)

lemma saved_graph_reloads:
  assumes "build_graph_from_directory fs dir_path True filename = Inr (fs', G)"
  shows "\<exists>G'. load_json_graph fs' (save_path (with_slash dir_path) filename) = Inr (Some G')
            \<and> node_set G' = node_set G \<and> edge_set G' = edge_set G"
proof -
  from assms have "fs_files fs' (save_path (with_slash dir_path) filename) = Some (Document (node_link_data G))"
    by (auto simp: build_graph_from_directory_def split: if_splits option.splits sum.splits)
  moreover note decoded_sets [OF build_inv [OF assms] refl refl]
  ultimately show ?thesis
    by (simp add: load_json_graph_def node_link_graph_doc node_link_data_def)
qed

lemma sample_inv: "graph_inv sample_graph"
  using build_inv [OF sample_build] .

lemma sample_nodes_perm: "mset (rev (nodes sample_graph)) = mset (nodes sample_graph)"
  by simp

lemma sample_edges_perm: "mset (rev (edges sample_graph)) = mset (edges sample_graph)"
  by simp

theorem encode_decode_round_trip_witness:
  "graph_inv sample_graph
   \<and> mset (rev (nodes sample_graph)) = mset (nodes sample_graph)
   \<and> mset (rev (edges sample_graph)) = mset (edges sample_graph)
   \<and> (\<exists>G'. node_link_graph (node_link_data sample_graph) = Some G'
              \<and> node_set G' = node_set sample_graph \<and> edge_set G' = edge_set sample_graph)
   \<and> (\<exists>G'. node_link_graph (node_link_doc (rev (nodes sample_graph)) (rev (edges sample_graph))) = Some G'
              \<and> node_set G' = node_set sample_graph \<and> edge_set G' = edge_set sample_graph)"
  by (intro conjI sample_inv sample_nodes_perm sample_edges_perm
      encode_decode_round_trip [OF sample_inv sample_nodes_perm sample_edges_perm, THEN conjunct1]
      encode_decode_round_trip [OF sample_inv sample_nodes_perm sample_edges_perm, THEN conjunct2])

section \<open>The matches of the pattern\<close>

lemma in_context_pattern_list:
  "in_context (rev b) post \<longleftrightarrow>
     (\<exists>(start, end) \<in> set pattern_list. ends start b post \<noteq> [] \<and> ends end b post \<noteq> [])"
  by (simp add: in_context_def pattern_list_def suffix_to_prefix)

lemma pattern_unfold:
  "pattern =
     Alt (Cat (LookBehind ''_'') (Cat common_pattern (LookAhead (Chars ''_''))))
       (Alt (Cat (LookBehind ''['') (Cat common_pattern (LookAhead (Chars '']''))))
          (Alt (Cat (LookBehind ''- '') (Cat common_pattern (LookAhead (Alt (Chars '' ('') (Chars '', '')))))
               (Cat (LookBehind ''('') (Cat common_pattern (LookAhead (Chars '',''))))))"
  by (simp add: pattern_def pattern_list_def)

lemma ends_le: "n \<in> set (ends r b s) \<Longrightarrow> n \<le> length s"
proof (induction r arbitrary: n b s)
  case (Chars l)
  then show ?case by (auto simp: prefix_def split: if_splits)
next
  case (One c)
  then show ?case by (auto split: list.splits if_splits)
next
  case (Lazy m c)
  have "length (takeWhile (in_cls c) s) \<le> length s" by (rule length_takeWhile_le)
  with Lazy show ?case by auto
next
  case (Cat r1 r2)
  from Cat.prems obtain i j where i: "i \<in> set (ends r1 b s)"
    and j: "j \<in> set (ends r2 (rev (take i s) @ b) (drop i s))" and n: "n = i + j"
    by auto
  from Cat.IH(1) [OF i] Cat.IH(2) [OF j] n show ?case by simp
qed (auto split: if_splits)

lemma ends_Cat_iff:
  "n \<in> set (ends (Cat r1 r2) b s) \<longleftrightarrow>
     (\<exists>i \<in> set (ends r1 b s). \<exists>j \<in> set (ends r2 (rev (take i s) @ b) (drop i s)). n = i + j)"
  by auto

lemma ends_common:
  assumes "n \<in> set (ends common_pattern b s)"
  shows "\<exists>c cs. s = c # cs \<and> upper c \<and> 3 \<le> n \<and> n \<le> length s
           \<and> (\<forall>x \<in> set (take (n - 1) cs). x \<notin> set excluded_chars)
           \<and> \<not> (\<exists>e rest. cs = CHR ''='' # e # rest \<and> upper e)"
proof -
  from assms obtain c cs where s: "s = c # cs"
    by (cases s) (auto simp: common_pattern_def)
  from assms have up: "upper c"
    by (auto simp: s common_pattern_def upper_def split: if_splits)
  from assms have neg: "ends (Cat (Chars ''='') (One (Between CHR ''A'' CHR ''Z''))) (c # b) cs = []"
    by (auto simp: s common_pattern_def split: if_splits)
  from assms have "n - 1 \<in> set [2 ..< Suc (length (takeWhile (in_cls (NoneOf excluded_chars)) cs))]" and "1 \<le> n"
    by (auto simp: s common_pattern_def split: if_splits)
  then have n3: "3 \<le> n" and run: "n - 1 \<le> length (takeWhile (in_cls (NoneOf excluded_chars)) cs)"
    by auto
  have "take (n - 1) (takeWhile (in_cls (NoneOf excluded_chars)) cs)
      = take (n - 1) (take (length (takeWhile (in_cls (NoneOf excluded_chars)) cs)) cs)"
    by (metis takeWhile_eq_take)
  also have "\<dots> = take (n - 1) cs"
    using run by (simp add: min_def)
  finally have "take (n - 1) cs = take (n - 1) (takeWhile (in_cls (NoneOf excluded_chars)) cs)"
    by (rule sym)
  then have ok: "\<forall>x \<in> set (take (n - 1) cs). x \<notin> set excluded_chars"
    by (metis in_cls.simps(2) in_set_takeD set_takeWhileD)
  have noeq: "\<not> (\<exists>e rest. cs = CHR ''='' # e # rest \<and> upper e)"
  proof
    assume "\<exists>e rest. cs = CHR ''='' # e # rest \<and> upper e"
    then obtain e rest where "cs = CHR ''='' # e # rest" "upper e" by blast
    with neg show False by (simp add: upper_def)
  qed
  from ends_le [OF assms] have "n \<le> length s" .
  with s up n3 ok noeq show ?thesis by blast
qed

lemma ends_pattern:
  assumes "n \<in> set (ends pattern b s)"
  shows "n \<in> set (ends common_pattern b s) \<and> in_context (rev b) (drop n s)"
proof -
  have lb: "ends (LookBehind l) b s = (if suffix l (rev b) then [0] else [])" for l
    by (simp add: suffix_to_prefix)
  have alt: "k \<in> set (ends (Cat (LookBehind l) (Cat common_pattern (LookAhead la))) b s) \<longleftrightarrow>
      suffix l (rev b) \<and> k \<in> set (ends common_pattern b s)
        \<and> ends la (rev (take k s) @ b) (drop k s) \<noteq> []" for k l la
    unfolding ends_Cat_iff lb by (auto split: if_splits)
  from assms show ?thesis
    unfolding pattern_unfold ends.simps(8) set_append Un_iff alt in_context_def
    by (auto split: if_splits)
qed



lemma ends_pattern_not_upper: "\<not> upper c \<Longrightarrow> ends pattern b (c # s) = []"
proof (rule ccontr)
  assume nu: "\<not> upper c" and "ends pattern b (c # s) \<noteq> []"
  then obtain n where "n \<in> set (ends pattern b (c # s))"
    by (cases "ends pattern b (c # s)") auto
  from ends_pattern [OF this] have "n \<in> set (ends common_pattern b (c # s))" by simp
  from ends_common [OF this] nu show False by auto
qed

lemma ends_common_three:
  assumes "upper c" and "d \<notin> set excluded_chars" and "e \<notin> set excluded_chars"
    and "\<not> (d = CHR ''='' \<and> upper e)"
  shows "\<exists>ks. ends common_pattern b (c # d # e # post) = 3 # ks"
proof -
  let ?L = "length (takeWhile (in_cls (NoneOf excluded_chars)) post)"
  have neg: "ends (Cat (Chars ''='') (One (Between CHR ''A'' CHR ''Z''))) (c # b) (d # e # post) = []"
    using assms(4) by (auto simp: upper_def)
  have lazy: "ends (Lazy 2 (NoneOf excluded_chars)) (c # b) (d # e # post) = 2 # [3 ..< Suc (Suc (Suc ?L))]"
    using assms(2,3) by (simp add: upt_conv_Cons del: upt_Suc)
  have "ends common_pattern b (c # d # e # post) = 3 # map (\<lambda>k. Suc k) [3 ..< Suc (Suc (Suc ?L))]"
    unfolding common_pattern_def ends.simps(7) [of "One (Between CHR ''A'' CHR ''Z'')"]
    using assms(1) neg lazy
    by (simp add: upper_def del: upt_Suc ends.simps(3))
  then show ?thesis by blast
qed

lemma alt_hit:
  assumes "ends common_pattern b s = 3 # ks" and "prefix (rev l) b"
    and "ends la (rev (take 3 s) @ b) (drop 3 s) \<noteq> []"
  shows "\<exists>ns. ends (Cat (LookBehind l) (Cat common_pattern (LookAhead la))) b s = 3 # ns"
  using assms by simp

lemma alt_miss: "\<not> prefix (rev l) b \<Longrightarrow> ends (Cat (LookBehind l) r) b s = []"
  by simp

lemma ends_pattern_three:
  assumes "upper c" and "d \<notin> set excluded_chars" and "e \<notin> set excluded_chars"
    and "\<not> (d = CHR ''='' \<and> upper e)" and "in_context (rev b) post"
  shows "\<exists>ns. ends pattern b (c # d # e # post) = 3 # ns"
proof -
  from ends_common_three [OF assms(1-4)] obtain ks where
    ks: "ends common_pattern b (c # d # e # post) = 3 # ks" by blast
  have sfx: "suffix l (rev b) \<longleftrightarrow> prefix (rev l) b" for l :: string
    by (simp add: suffix_to_prefix)
  from assms(5) consider
      (us) "prefix (rev ''_'') b" "prefix ''_'' post"
    | (sq) "prefix (rev ''['') b" "prefix '']'' post"
    | (da) "prefix (rev ''- '') b" "prefix '' ('' post \<or> prefix '', '' post"
    | (pa) "prefix (rev ''('') b" "prefix '','' post"
    unfolding in_context_def sfx by blast
  note ctx = this
  let ?s = "c # d # e # post"
  let ?b3 = "rev (take 3 ?s) @ b"
  let ?A1 = "Cat (LookBehind ''_'') (Cat common_pattern (LookAhead (Chars ''_'')))"
  let ?A2 = "Cat (LookBehind ''['') (Cat common_pattern (LookAhead (Chars '']'')))"
  let ?A3 = "Cat (LookBehind ''- '') (Cat common_pattern (LookAhead (Alt (Chars '' ('') (Chars '', ''))))"
  let ?A4 = "Cat (LookBehind ''('') (Cat common_pattern (LookAhead (Chars '','')))"
  have p: "ends pattern b ?s = ends ?A1 b ?s @ ends ?A2 b ?s @ ends ?A3 b ?s @ ends ?A4 b ?s"
    by (simp only: pattern_unfold ends.simps(8))
  from ctx show ?thesis
  proof cases
    case us
    then have "ends (Chars ''_'') ?b3 (drop 3 ?s) \<noteq> []" by simp
    from alt_hit [OF ks us(1) this] obtain ns where "ends ?A1 b ?s = 3 # ns" ..
    then show ?thesis by (simp only: p append_Cons) blast
  next
    case sq
    then have m1: "\<not> prefix (rev ''_'') b" by (auto simp: prefix_def)
    from sq have "ends (Chars '']'') ?b3 (drop 3 ?s) \<noteq> []" by simp
    from alt_hit [OF ks sq(1) this] obtain ns where "ends ?A2 b ?s = 3 # ns" ..
    moreover note alt_miss [OF m1, of "Cat common_pattern (LookAhead (Chars ''_''))" ?s]
    ultimately show ?thesis by (simp only: p append_Cons append_Nil) blast
  next
    case da
    then have m1: "\<not> prefix (rev ''_'') b" and m2: "\<not> prefix (rev ''['') b"
      by (auto simp: prefix_def)
    from da have "ends (Alt (Chars '' ('') (Chars '', '')) ?b3 (drop 3 ?s) \<noteq> []" by auto
    from alt_hit [OF ks da(1) this] obtain ns where "ends ?A3 b ?s = 3 # ns" ..
    moreover note alt_miss [OF m1, of "Cat common_pattern (LookAhead (Chars ''_''))" ?s]
      alt_miss [OF m2, of "Cat common_pattern (LookAhead (Chars '']''))" ?s]
    ultimately show ?thesis by (simp only: p append_Cons append_Nil) blast
  next
    case pa
    then have m1: "\<not> prefix (rev ''_'') b" and m2: "\<not> prefix (rev ''['') b"
      and m3: "\<not> prefix (rev ''- '') b"
      by (auto simp: prefix_def)
    from pa have "ends (Chars '','') ?b3 (drop 3 ?s) \<noteq> []" by simp
    from alt_hit [OF ks pa(1) this] obtain ns where "ends ?A4 b ?s = 3 # ns" ..
    moreover note alt_miss [OF m1, of "Cat common_pattern (LookAhead (Chars ''_''))" ?s]
      alt_miss [OF m2, of "Cat common_pattern (LookAhead (Chars '']''))" ?s]
      alt_miss [OF m3, of "Cat common_pattern (LookAhead (Alt (Chars '' ('') (Chars '', '')))" ?s]
    ultimately show ?thesis by (simp only: p append_Cons append_Nil) blast
  qed
qed

lemma findall_from_scan_at:
  "scan_at r b s k \<Longrightarrow>
     \<exists>ms. findall_from r b s = ms @ findall_from r (rev (take k s) @ b) (drop k s)"
proof (induction r b s k rule: scan_at.induct)
  case (1 r b s k)
  show ?case
  proof (cases "k = 0")
    case True
    then show ?thesis by simp
  next
    case k: False
    with "1.prems" have ne: "s \<noteq> []" by (auto simp: scan_at.simps [of r b s k])
    then obtain x xs where s: "s = x # xs" by (cases s) auto
    from k obtain k' where k': "k = Suc k'" by (cases k) auto
    show ?thesis
    proof (cases "ends r b s")
      case Nil
      with k ne "1.prems" have "scan_at r (hd s # b) (tl s) (k - 1)"
        by (simp add: scan_at.simps [of r b s k])
      from "1.IH"(1) [OF k ne Nil this] obtain ms where
        "findall_from r (hd s # b) (tl s) = ms @ findall_from r (rev (take (k - 1) (tl s)) @ hd s # b) (drop (k - 1) (tl s))"
        by blast
      moreover from Nil ne have "findall_from r b s = findall_from r (hd s # b) (tl s)"
        by (simp add: findall_from.simps [of r b s])
      ultimately have "findall_from r b s = ms @ findall_from r (rev (take k s) @ b) (drop k s)"
        by (simp add: s k')
      then show ?thesis by blast
    next
      case (Cons n ns)
      show ?thesis
      proof (cases "n = 0")
        case True
        with k ne Cons "1.prems" have "scan_at r (hd s # b) (tl s) (k - 1)"
          by (simp add: scan_at.simps [of r b s k])
        from "1.IH"(2) [OF k ne Cons True this] obtain ms where
          "findall_from r (hd s # b) (tl s) = ms @ findall_from r (rev (take (k - 1) (tl s)) @ hd s # b) (drop (k - 1) (tl s))"
          by blast
        moreover from Cons True ne have "findall_from r b s = findall_from r (hd s # b) (tl s)"
          by (simp add: findall_from.simps [of r b s])
        ultimately have "findall_from r b s = ms @ findall_from r (rev (take k s) @ b) (drop k s)"
          by (simp add: s k')
        then show ?thesis by blast
      next
        case pos: False
        with k ne Cons "1.prems" have nk: "n \<le> k"
          and sc: "scan_at r (rev (take n s) @ b) (drop n s) (k - n)"
          by (auto simp: scan_at.simps [of r b s k] split: if_splits)
        from "1.IH"(3) [OF k ne Cons pos nk sc] obtain ms where ms:
          "findall_from r (rev (take n s) @ b) (drop n s)
             = ms @ findall_from r (rev (take (k - n) (drop n s)) @ rev (take n s) @ b) (drop (k - n) (drop n s))"
          by blast
        from nk have "take k s = take n s @ take (k - n) (drop n s)"
          by (metis le_add_diff_inverse take_add)
        moreover from nk have "drop (k - n) (drop n s) = drop k s" by simp
        ultimately have "findall_from r (rev (take n s) @ b) (drop n s)
             = ms @ findall_from r (rev (take k s) @ b) (drop k s)"
          using ms by simp
        with Cons pos ne have "findall_from r b s = (take n s # ms) @ findall_from r (rev (take k s) @ b) (drop k s)"
          by (simp add: findall_from.simps [of r b s])
        then show ?thesis by blast
      qed
    qed
  qed
qed

lemma scan_at_no_capital:
  "\<forall>x \<in> set pre. \<not> upper x \<Longrightarrow> scan_at pattern b (pre @ s) (length pre)"
proof (induction pre arbitrary: b)
  case Nil
  show ?case by (simp add: scan_at.simps)
next
  case (Cons x pre)
  then have "ends pattern b (x # pre @ s) = []" by (simp add: ends_pattern_not_upper)
  with Cons show ?case
    by (simp add: scan_at.simps [of pattern b "x # pre @ s"])
qed

lemma findall_from_three:
  assumes "upper c" and "d \<notin> set excluded_chars" and "e \<notin> set excluded_chars"
    and "\<not> (d = CHR ''='' \<and> upper e)" and "in_context (rev b) post"
  shows "findall_from pattern b ([c, d, e] @ post)
           = [c, d, e] # findall_from pattern (rev [c, d, e] @ b) post"
proof -
  from ends_pattern_three [OF assms] obtain ns where
    "ends pattern b (c # d # e # post) = 3 # ns" by blast
  then show ?thesis
    by (simp add: findall_from.simps [of pattern b "c # d # e # post"])
qed

lemma findall_three_reached:
  assumes "upper c" and "d \<notin> set excluded_chars" and "e \<notin> set excluded_chars"
    and "\<not> (d = CHR ''='' \<and> upper e)" and "in_context pre post"
    and "scan_at pattern [] (pre @ [c, d, e] @ post) (length pre)"
  shows "[c, d, e] \<in> set (findall pattern (pre @ [c, d, e] @ post))"
proof -
  from findall_from_scan_at [OF assms(6)] obtain ms where
    "findall_from pattern [] (pre @ [c, d, e] @ post)
       = ms @ findall_from pattern (rev pre) ([c, d, e] @ post)"
    by auto
  moreover from assms(5) have "in_context (rev (rev pre)) post" by simp
  note findall_from_three [OF assms(1-4) this]
  ultimately show ?thesis by (simp add: findall_def)
qed

lemma swallowed_token_not_reached:
  "\<not> scan_at pattern [] ''_Foo - Abc, bar_'' (length ''_Foo - '')"
  by code_simp

lemma findall_three_no_capital:
  assumes "upper c" and "d \<notin> set excluded_chars" and "e \<notin> set excluded_chars"
    and "\<not> (d = CHR ''='' \<and> upper e)" and "in_context pre post"
    and "\<forall>x \<in> set pre. \<not> upper x"
  shows "[c, d, e] \<in> set (findall pattern (pre @ [c, d, e] @ post))"
  using assms(1-5) scan_at_no_capital [OF assms(6)] by (rule findall_three_reached)




section \<open>Splitting a match into names\<close>

lemma str_split_from_not_Nil: "str_split_from sep acc s \<noteq> []"
  by (induction sep acc s rule: str_split_from.induct) auto

lemma str_join_Cons: "ps \<noteq> [] \<Longrightarrow> str_join sep (p # ps) = p @ sep @ str_join sep ps"
  by (cases ps) simp_all

lemma join_split_from: "str_join sep (str_split_from sep acc s) = rev acc @ s"
proof (induction sep acc s rule: str_split_from.induct)
  case (1 sep acc)
  show ?case by simp
next
  case (2 sep acc c cs)
  show ?case
  proof (cases "sep \<noteq> [] \<and> prefix sep (c # cs)")
    case True
    then have "c # cs = sep @ drop (length sep) (c # cs)"
      by (metis append_eq_conv_conj prefix_def)
    with True "2.IH"(1) show ?thesis
      by (simp add: str_join_Cons str_split_from_not_Nil del: drop_Suc_Cons)
  next
    case False
    with "2.IH"(2) show ?thesis by auto
  qed
qed

lemma pieces_without_sep:
  "sep \<noteq> [] \<Longrightarrow> \<forall>i < length acc. \<not> prefix sep (drop i (rev acc @ s)) \<Longrightarrow>
     p \<in> set (str_split_from sep acc s) \<Longrightarrow> \<not> sublist sep p"
proof (induction sep acc s rule: str_split_from.induct)
  case (1 sep acc)
  show ?case
  proof
    assume "sublist sep p"
    with "1.prems"(3) obtain ps ss where r: "rev acc = ps @ sep @ ss"
      by (auto simp: sublist_def)
    then have "length ps < length acc"
      using "1.prems"(1) by (metis length_rev length_append length_greater_0_conv
          less_add_same_cancel1 trans_less_add1)
    moreover have "prefix sep (drop (length ps) (rev acc @ []))"
      by (simp add: r)
    ultimately show False using "1.prems"(2) by blast
  qed
next
  case (2 sep acc c cs)
  show ?case
  proof (cases "prefix sep (c # cs)")
    case True
    with "2.prems"(1,3)
    have "p = rev acc \<or> p \<in> set (str_split_from sep [] (drop (length sep) (c # cs)))"
      by simp
    then show ?thesis
    proof
      assume p: "p = rev acc"
      show ?thesis
      proof
        assume "sublist sep p"
        with p obtain ps ss where r: "rev acc = ps @ sep @ ss"
          by (auto simp: sublist_def)
        then have "length ps < length acc"
          using "2.prems"(1) by (metis length_rev length_append length_greater_0_conv
              less_add_same_cancel1 trans_less_add1)
        moreover have "prefix sep (drop (length ps) (rev acc @ c # cs))"
          by (simp add: r)
        ultimately show False using "2.prems"(2) by blast
      qed
    next
      assume "p \<in> set (str_split_from sep [] (drop (length sep) (c # cs)))"
      with "2.IH"(1) "2.prems"(1) True show ?thesis by simp
    qed
  next
    case False
    with "2.prems"(3) have in_rest: "p \<in> set (str_split_from sep (c # acc) cs)" by simp
    have "\<forall>i < length (c # acc). \<not> prefix sep (drop i (rev (c # acc) @ cs))"
    proof (intro allI impI)
      fix i assume "i < length (c # acc)"
      then consider "i < length acc" | "i = length acc" by fastforce
      then show "\<not> prefix sep (drop i (rev (c # acc) @ cs))"
      proof cases
        case 1
        with "2.prems"(2) show ?thesis by simp
      next
        case 2
        with False show ?thesis by simp
      qed
    qed
    with "2.IH"(2) False "2.prems"(1) in_rest show ?thesis by blast
  qed
qed

lemma str_split_pieces:
  "str_join '', '' (str_split '', '' m) = m"
  "p \<in> set (str_split '', '' m) \<Longrightarrow> \<not> sublist '', '' p"
  by (simp add: str_split_def join_split_from)
     (rule pieces_without_sep [of "'', ''" "[]" m], simp_all add: str_split_def)

lemma collect_authors_strings:
  "\<exists>authors. collect_authors (map JStr comments) acc = Inr authors
      \<and> set authors = set acc \<union> (\<Union>c \<in> set comments. set (comment_names c))"
proof (induction comments arbitrary: acc)
  case Nil
  then show ?case by simp
next
  case (Cons c comments)
  from Cons.IH [of "set_update acc (comment_names c)"] obtain authors where
    "collect_authors (map JStr comments) (set_update acc (comment_names c)) = Inr authors"
    "set authors = set (set_update acc (comment_names c)) \<union> (\<Union>c \<in> set comments. set (comment_names c))"
    by blast
  then have "collect_authors (map JStr (c # comments)) acc = Inr authors
      \<and> set authors = set acc \<union> (\<Union>c \<in> set (c # comments). set (comment_names c))"
    by (simp add: set_set_update Un_assoc)
  then show ?case by blast
qed

lemma set_comment_names:
  "set (comment_names comment) = (\<Union>m \<in> set (findall pattern comment). set (str_split '', '' m))"
  by (simp add: comment_names_def)

text \<open>
  Against the first wording of C8 (every comma splits a match): a match with a comma that
  no space follows is one author.
\<close>

theorem comma_without_space_not_split:
  "findall pattern ''_Ab,Cd_'' = [''Ab,Cd'']
   \<and> parse_authors_from_comments (sample_record [''_Ab,Cd_'']) = Inr (Some [''Ab,Cd''])"
  by code_simp

text \<open>
  C8. For a record whose comments are strings, the authors are the pieces of the matches of
  every comment, split at each occurrence of a comma followed by a space: the pieces joined
  with that separator give the match back, and no piece contains the separator.
\<close>

theorem names_split_at_comma_space:
  assumes "map_of kvs ''results'' = Some (JArr (JObj entry # rest))"
    and "map_of entry ''comment'' = Some (JArr (map JStr comments))"
    and "comments \<noteq> []"
  shows "(\<exists>authors. parse_authors_from_comments (JObj kvs) = Inr (Some authors)
            \<and> set authors = (\<Union>c \<in> set comments. \<Union>m \<in> set (findall pattern c). set (str_split '', '' m)))
       \<and> str_join '', '' (str_split '', '' m) = m
       \<and> (\<forall>p \<in> set (str_split '', '' m). \<not> sublist '', '' p)"
proof -
  from collect_authors_strings [of comments "[]"] obtain authors where
    "collect_authors (map JStr comments) [] = Inr authors"
    "set authors = (\<Union>c \<in> set comments. set (comment_names c))"
    by auto
  with assms have "parse_authors_from_comments (JObj kvs) = Inr (Some authors)
      \<and> set authors = (\<Union>c \<in> set comments. \<Union>m \<in> set (findall pattern c). set (str_split '', '' m))"
    by (simp add: parse_authors_from_comments_def set_comment_names)
  then show ?thesis using str_split_pieces by blast
qed

theorem names_split_at_comma_space_witness:
  "map_of [(''results'', JArr [JObj [(''comment'', JArr (map JStr [''_Ef, Gh_'']))]])] ''results''
     = Some (JArr (JObj [(''comment'', JArr (map JStr [''_Ef, Gh_'']))] # []))
   \<and> map_of [(''comment'', JArr (map JStr [''_Ef, Gh_'']))] ''comment'' = Some (JArr (map JStr [''_Ef, Gh_'']))
   \<and> [''_Ef, Gh_''] \<noteq> []
   \<and> (\<exists>authors. parse_authors_from_comments
           (JObj [(''results'', JArr [JObj [(''comment'', JArr (map JStr [''_Ef, Gh_'']))]])])
           = Inr (Some authors)
         \<and> set authors = (\<Union>c \<in> set [''_Ef, Gh_'']. \<Union>m \<in> set (findall pattern c). set (str_split '', '' m)))
   \<and> str_join '', '' (str_split '', '' ''Ef, Gh'') = ''Ef, Gh''
   \<and> \<not> sublist '', '' ''Ef''"
proof -
  have h1: "map_of [(''results'', JArr [JObj [(''comment'', JArr (map JStr [''_Ef, Gh_'']))]])] ''results''
     = Some (JArr (JObj [(''comment'', JArr (map JStr [''_Ef, Gh_'']))] # []))"
    by simp
  have h2: "map_of [(''comment'', JArr (map JStr [''_Ef, Gh_'']))] ''comment'' = Some (JArr (map JStr [''_Ef, Gh_'']))"
    by simp
  have h3: "[''_Ef, Gh_''] \<noteq> []" by simp
  note t = names_split_at_comma_space [OF h1 h2 h3, of "''Ef, Gh''"]
  have p: "''Ef'' \<in> set (str_split '', '' ''Ef, Gh'')" by code_simp
  show ?thesis
    by (intro conjI h1 h2 h3 t [THEN conjunct1] t [THEN conjunct2, THEN conjunct1]
        t [THEN conjunct2, THEN conjunct2, THEN bspec, OF p])
qed

end
